theory Spec2Isabelle
  imports Main "HOL-Library.Sublist"
begin

section \<open>The mbox message-boundary scanner (\<open>MboxParserStream\<close>)\<close>

text \<open>
  A shallow embedding of the class \<open>MboxParserStream\<close>: a Node \<open>Transform\<close> stream
  that receives the bytes of an mbox file chunk by chunk and pushes one
  \<open>{ offset }\<close> object per message boundary.

  \<^item> A \<open>Buffer\<close> is a list of bytes; \<open>char\<close> is HOL's 8-bit character type.
  \<^item> Offsets are JavaScript numbers holding integers; they are modelled as \<open>int\<close>
    (exact below \<open>2^53\<close>, far above the size of any file).
  \<^item> The fields of the object are a record, passed in and returned updated: the four
    private fields of the class, and the part of the state inherited from \<open>Transform\<close> that
    decides whether a chunk written to the stream reaches \<open>_transform\<close> at all.
  \<^item> \<open>this.push(...)\<close> appends to the list of offsets returned by the call;
    \<open>callback(err)\<close> is the \<open>error option\<close> returned by the call.
\<close>

subsection \<open>Buffers\<close>

type_synonym buffer = "char list"

text \<open>\<open>buf.slice(start, end)\<close> and \<open>buf.slice(start)\<close> for indices that are not negative;
  an \<open>end\<close> past the buffer is clamped to its length.\<close>

definition slice :: "buffer \<Rightarrow> nat \<Rightarrow> nat \<Rightarrow> buffer" where
  "slice buf start end' = take (end' - start) (drop start buf)"

definition slice_from :: "buffer \<Rightarrow> nat \<Rightarrow> buffer" where
  "slice_from buf start = drop start buf"

text \<open>\<open>buf.indexOf(value, byteOffset)\<close> for a non-empty \<open>value\<close> and a \<open>byteOffset\<close> that is
  not negative (all the class ever passes): the least index at or after \<open>byteOffset\<close> at which
  \<open>value\<close> occurs in \<open>buf\<close>, or \<open>-1\<close>.\<close>

function indexOf :: "buffer \<Rightarrow> buffer \<Rightarrow> nat \<Rightarrow> int" where
  "indexOf buf val byteOffset =
     (if length buf < byteOffset + length val then - 1
      else if take (length val) (drop byteOffset buf) = val then int byteOffset
      else indexOf buf val (Suc byteOffset))"
  by pat_completeness auto
termination
proof (relation "measure (\<lambda>(buf, val, byteOffset). length buf - byteOffset)")
  show "wf (measure (\<lambda>(buf, val, byteOffset). length buf - byteOffset))"
    by simp
next
  fix buf val :: buffer and byteOffset :: nat
  assume a: "\<not> length buf < byteOffset + length val"
    and b: "take (length val) (drop byteOffset buf) \<noteq> val"
  from b have "val \<noteq> []" by auto
  with a have "byteOffset < length buf" by (cases val) auto
  then show "((buf, val, Suc byteOffset), (buf, val, byteOffset))
               \<in> measure (\<lambda>(buf, val, byteOffset). length buf - byteOffset)"
    by simp
qed

declare indexOf.simps [simp del]

subsection \<open>The class\<close>

text \<open>\<open>MboxValidationError\<close> is the error of the class. The other three are the errors
  with which Node refuses a \<open>write\<close> or an \<open>end\<close> on a stream that has ended or has been
  destroyed.\<close>

datatype error = MboxValidationError
  | ERR_STREAM_WRITE_AFTER_END
  | ERR_STREAM_DESTROYED
  | ERR_STREAM_ALREADY_FINISHED

text \<open>The object. \<open>writableEnded\<close> and \<open>destroyed\<close> are inherited from \<open>Transform\<close>:
  \<open>writableEnded\<close> is true once \<open>end()\<close> has been called, \<open>destroyed\<close> once a call of
  \<open>_transform\<close> has passed an error to its callback. No method of the class assigns them.\<close>

record scanner =
  absoluteOffset :: int
  tail :: buffer
  isFirstChunk :: bool
  strict :: bool
  writableEnded :: bool
  destroyed :: bool

definition DELIMITER :: buffer where
  "DELIMITER = CHR 0x0A # ''From ''"

definition DELIMITER_START :: buffer where
  "DELIMITER_START = ''From ''"

text \<open>The constructor: \<open>options.strict ?? false\<close>, the other fields at their initialisers;
  \<open>super(...)\<close> gives a stream that is open.\<close>

definition MboxParserStream :: "bool option \<Rightarrow> scanner" where
  "MboxParserStream options =
     \<lparr> absoluteOffset = 0, tail = [], isFirstChunk = True,
       strict = (case options of Some b \<Rightarrow> b | None \<Rightarrow> False),
       writableEnded = False, destroyed = False \<rparr>"

definition startsWithFromLine :: "buffer \<Rightarrow> bool" where
  "startsWithFromLine buffer =
     (if length buffer < length DELIMITER_START then False
      else slice buffer 0 (length DELIMITER_START) = DELIMITER_START)"


text \<open>\<open>indexOf\<close> either fails or returns an index at or after \<open>byteOffset\<close> where a whole
  \<open>value\<close> still fits; this is what makes the search loop below terminate.\<close>

lemma indexOf_range:
  "indexOf buf val i \<noteq> - 1 \<Longrightarrow>
     int i \<le> indexOf buf val i \<and> indexOf buf val i + int (length val) \<le> int (length buf)"
proof (induction buf val i rule: indexOf.induct)
  case (1 buf val byteOffset)
  show ?case
  proof (cases "length buf < byteOffset + length val")
    case True
    with "1.prems" show ?thesis by (simp add: indexOf.simps [of buf val byteOffset])
  next
    case fits: False
    show ?thesis
    proof (cases "take (length val) (drop byteOffset buf) = val")
      case True
      with fits show ?thesis by (simp add: indexOf.simps [of buf val byteOffset])
    next
      case False
      with fits have eq: "indexOf buf val byteOffset = indexOf buf val (Suc byteOffset)"
        by (simp add: indexOf.simps [of buf val byteOffset])
      with "1.prems" have "indexOf buf val (Suc byteOffset) \<noteq> - 1" by simp
      with "1.IH" [OF fits False] eq show ?thesis by simp
    qed
  qed
qed

text \<open>Lines 45--76 of \<open>_transform\<close>: the check of the very first bytes. The result is the
  updated object, what was pushed, and the error passed to \<open>callback\<close> when the method
  returns early.\<close>

definition firstChunkCheck :: "scanner \<Rightarrow> buffer \<Rightarrow> scanner \<times> int list \<times> error option" where
  "firstChunkCheck s searchBuffer =
     (if isFirstChunk s then
        if length DELIMITER_START \<le> length searchBuffer then
          let s1 = s\<lparr> isFirstChunk := False \<rparr> in
          if startsWithFromLine searchBuffer then (s1, [0], None)
          else if strict s1 then (s1, [], Some MboxValidationError)
          else (s1, [], None)
        else
          let canStillMatch = (slice DELIMITER_START 0 (length searchBuffer) = searchBuffer) in
          if \<not> canStillMatch then
            let s1 = s\<lparr> isFirstChunk := False \<rparr> in
            if strict s1 then (s1, [], Some MboxValidationError)
            else (s1, [], None)
          else (s, [], None)
      else (s, [], None))"

text \<open>Lines 78--100: the search loop, from \<open>searchIndex\<close> on. It returns the offsets pushed.\<close>

function scanLoop :: "buffer \<Rightarrow> int \<Rightarrow> nat \<Rightarrow> nat \<Rightarrow> int list" where
  "scanLoop searchBuffer absOffset tailLength searchIndex =
     (let matchIndex = indexOf searchBuffer DELIMITER searchIndex in
      if matchIndex = - 1 then []
      else
        let offsetInChunk = matchIndex - int tailLength;
            filePosition = absOffset + offsetInChunk + 1
        in filePosition # scanLoop searchBuffer absOffset tailLength (nat (matchIndex + 1)))"
  by pat_completeness auto
termination
proof (relation "measure (\<lambda>(searchBuffer, absOffset, tailLength, searchIndex).
                    length searchBuffer - searchIndex)")
  show "wf (measure (\<lambda>(searchBuffer, absOffset, tailLength, searchIndex).
                    length searchBuffer - searchIndex))"
    by simp
next
  fix searchBuffer :: buffer and absOffset :: int and tailLength searchIndex :: nat
    and matchIndex offsetInChunk filePosition :: int
  assume m: "matchIndex = indexOf searchBuffer DELIMITER searchIndex"
    and found: "matchIndex \<noteq> - 1"
  from indexOf_range [of searchBuffer DELIMITER searchIndex] m found
  have "int searchIndex \<le> matchIndex" and "matchIndex + 6 \<le> int (length searchBuffer)"
    by (simp_all add: DELIMITER_def)
  then show "((searchBuffer, absOffset, tailLength, nat (matchIndex + 1)),
              (searchBuffer, absOffset, tailLength, searchIndex))
             \<in> measure (\<lambda>(searchBuffer, absOffset, tailLength, searchIndex).
                    length searchBuffer - searchIndex)"
    by simp
qed

declare scanLoop.simps [simp del]

text \<open>\<open>_transform(chunk, _encoding, callback)\<close>. Nothing in the body throws, so the
  \<open>catch\<close> clause is never entered. On the early return the fields \<open>tail\<close> and
  \<open>absoluteOffset\<close> keep their values.\<close>

definition transform :: "scanner \<Rightarrow> buffer \<Rightarrow> scanner \<times> int list \<times> error option" where
  "transform s chunk =
     (let searchBuffer = tail s @ chunk;
          tailLength = length (tail s)
      in case firstChunkCheck s searchBuffer of
           (s1, pushed0, Some e) \<Rightarrow> (s1, pushed0, Some e)
         | (s1, pushed0, None) \<Rightarrow>
             let pushed = pushed0 @ scanLoop searchBuffer (absoluteOffset s1) tailLength 0;
                 s2 = (if isFirstChunk s1
                       then s1\<lparr> tail := slice searchBuffer 0 (length DELIMITER_START) \<rparr>
                       else
                         let tailSize = min (length DELIMITER - 1) (length searchBuffer)
                         in s1\<lparr> tail := slice_from searchBuffer (length searchBuffer - tailSize) \<rparr>)
             in (s2\<lparr> absoluteOffset := absoluteOffset s2 + int (length chunk) \<rparr>, pushed, None))"

text \<open>\<open>_flush(callback)\<close>: nothing is pushed and no field changes.\<close>

definition flush :: "scanner \<Rightarrow> scanner \<times> int list \<times> error option" where
  "flush s = (s, [], None)"

text \<open>The stream machinery of Node, as far as the class depends on it.

  \<open>write(chunk)\<close> on a stream that has ended or has been destroyed is refused with an error:
  \<open>_transform\<close> is not called and nothing is pushed. Otherwise \<open>_transform\<close> is called with
  the chunk; when it passes an error to its callback, the stream is destroyed (the default
  \<open>autoDestroy\<close> of a stream).

  \<open>end()\<close> on a stream that has ended or has been destroyed does nothing but report an
  error. Otherwise \<open>_flush\<close> is called and the stream has ended.

  \<open>feed\<close> writes the chunks of a list in order and stops at the first error; \<open>scan\<close> is the
  whole life of one input: its chunks are written, then, unless a write failed, the stream
  is ended.\<close>

text \<open>\<open>streamWrite\<close> is \<open>write(chunk)\<close> and \<open>streamEnd\<close> is \<open>end()\<close>.\<close>

definition streamWrite :: "scanner \<Rightarrow> buffer \<Rightarrow> scanner \<times> int list \<times> error option" where
  "streamWrite s chunk =
     (if writableEnded s then (s, [], Some ERR_STREAM_WRITE_AFTER_END)
      else if destroyed s then (s, [], Some ERR_STREAM_DESTROYED)
      else
        case transform s chunk of
          (s1, pushed, Some e) \<Rightarrow> (s1\<lparr> destroyed := True \<rparr>, pushed, Some e)
        | (s1, pushed, None) \<Rightarrow> (s1, pushed, None))"

definition streamEnd :: "scanner \<Rightarrow> scanner \<times> int list \<times> error option" where
  "streamEnd s =
     (if writableEnded s then (s, [], Some ERR_STREAM_ALREADY_FINISHED)
      else if destroyed s then (s, [], Some ERR_STREAM_DESTROYED)
      else
        case flush s of (s1, pushed, r) \<Rightarrow> (s1\<lparr> writableEnded := True \<rparr>, pushed, r))"

fun feed :: "scanner \<Rightarrow> buffer list \<Rightarrow> scanner \<times> int list \<times> error option" where
  "feed s [] = (s, [], None)"
| "feed s (chunk # chunks) =
     (case streamWrite s chunk of
        (s1, pushed, Some e) \<Rightarrow> (s1, pushed, Some e)
      | (s1, pushed, None) \<Rightarrow>
          (case feed s1 chunks of (s2, pushed', r) \<Rightarrow> (s2, pushed @ pushed', r)))"

definition scan :: "scanner \<Rightarrow> buffer list \<Rightarrow> scanner \<times> int list \<times> error option" where
  "scan s chunks =
     (case feed s chunks of
        (s1, pushed, Some e) \<Rightarrow> (s1, pushed, Some e)
      | (s1, pushed, None) \<Rightarrow>
          (case streamEnd s1 of (s2, pushed', r) \<Rightarrow> (s2, pushed @ pushed', r)))"

subsection \<open>The boundaries of a whole stream\<close>

text \<open>What the scanner is meant to report, stated on the whole content \<open>S\<close> of a stream
  and independent of any chunking: the delimiter occurs at position \<open>p\<close> when the six bytes
  from \<open>p\<close> on are a newline and \<open>From \<close>; the boundaries are offset \<open>0\<close> when the
  content starts with \<open>From \<close>, then the byte after the newline of each occurrence, in
  increasing order.\<close>

definition occurs_at :: "buffer \<Rightarrow> nat \<Rightarrow> bool" where
  "occurs_at S p \<longleftrightarrow> take (length DELIMITER) (drop p S) = DELIMITER"

definition delimiter_positions :: "buffer \<Rightarrow> nat list" where
  "delimiter_positions S = filter (occurs_at S) [0..<length S]"

definition boundaries :: "buffer \<Rightarrow> int list" where
  "boundaries S =
     (if take 5 S = ''From '' then [0] else []) @ map (\<lambda>p. int p + 1) (delimiter_positions S)"

text \<open>The leading bytes of the content fail to match \<open>From \<close>, and this is evident:
  either five bytes are there and they differ from \<open>From \<close>, or fewer are there and
  they are not a prefix of \<open>From \<close>.\<close>

definition evident_mismatch :: "buffer \<Rightarrow> bool" where
  "evident_mismatch S \<longleftrightarrow>
     (if 5 \<le> length S then take 5 S \<noteq> ''From '' else take (length S) ''From '' \<noteq> S)"

text \<open>The content is too short to decide and may still grow into \<open>From \<close>.\<close>

definition pending :: "buffer \<Rightarrow> bool" where
  "pending S \<longleftrightarrow> length S < 5 \<and> prefix S DELIMITER_START"

text \<open>The fields a fresh scanner with option \<open>b\<close> is expected to hold once it has consumed
  the content \<open>S\<close> without error and before the stream is ended, and the offsets expected from the call that extends the
  content \<open>S\<close> by the chunk \<open>c\<close>.\<close>

definition state_after :: "bool \<Rightarrow> buffer \<Rightarrow> scanner" where
  "state_after b S =
     \<lparr> absoluteOffset = int (length S), tail = drop (length S - 5) S,
       isFirstChunk = pending S, strict = b, writableEnded = False, destroyed = False \<rparr>"

definition new_boundaries :: "buffer \<Rightarrow> buffer \<Rightarrow> int list" where
  "new_boundaries S c =
     (if take 5 S \<noteq> ''From '' \<and> take 5 (S @ c) = ''From '' then [0] else []) @
     map (\<lambda>p. int p + 1) (filter (occurs_at (S @ c)) [length S - 5..<length (S @ c)])"

text \<open>The example stream of the specification: two messages, the first one 35 bytes long.\<close>

definition example_mbox :: buffer where
  "example_mbox = ''From a@x Mon Jan 1'' @ [CHR 0x0A] @ ''Subj: 1'' @ [CHR 0x0A, CHR 0x0A] @
     ''Body 1'' @ [CHR 0x0A] @ ''From b@x Mon Jan 2'' @ [CHR 0x0A] @ ''Subj: 2'' @ [CHR 0x0A]"

subsection \<open>The search loop finds every occurrence\<close>

lemma occurs_at_fits: "occurs_at S p \<Longrightarrow> p + 6 \<le> length S"
proof -
  assume "occurs_at S p"
  then have "length (take (length DELIMITER) (drop p S)) = length DELIMITER"
    by (simp add: occurs_at_def)
  then show ?thesis by (simp add: DELIMITER_def)
qed

lemma indexOf_none:
  "indexOf buf DELIMITER i = - 1 \<Longrightarrow> i \<le> p \<Longrightarrow> \<not> occurs_at buf p"
proof (induction buf DELIMITER i rule: indexOf.induct)
  case (1 buf i)
  show ?case
  proof (cases "length buf < i + length DELIMITER")
    case True
    with "1.prems" show ?thesis using occurs_at_fits [of buf p] by (auto simp: DELIMITER_def)
  next
    case fits: False
    show ?thesis
    proof (cases "take (length DELIMITER) (drop i buf) = DELIMITER")
      case True
      with fits "1.prems" show ?thesis by (simp add: indexOf.simps [of buf DELIMITER i])
    next
      case False
      with fits "1.prems" have nxt: "indexOf buf DELIMITER (Suc i) = - 1"
        by (simp add: indexOf.simps [of buf DELIMITER i])
      show ?thesis
      proof (cases "p = i")
        case True
        with False show ?thesis by (simp add: occurs_at_def)
      next
        case False
        with "1.prems" have "Suc i \<le> p" by simp
        with "1.hyps" [OF fits \<open>take (length DELIMITER) (drop i buf) \<noteq> DELIMITER\<close> nxt] show ?thesis .
      qed
    qed
  qed
qed

lemma indexOf_some:
  "indexOf buf DELIMITER i = int m \<Longrightarrow>
     i \<le> m \<and> occurs_at buf m \<and> (\<forall>p. i \<le> p \<and> p < m \<longrightarrow> \<not> occurs_at buf p)"
proof (induction buf DELIMITER i rule: indexOf.induct)
  case (1 buf i)
  show ?case
  proof (cases "length buf < i + length DELIMITER")
    case True
    with "1.prems" show ?thesis by (simp add: indexOf.simps [of buf DELIMITER i])
  next
    case fits: False
    show ?thesis
    proof (cases "take (length DELIMITER) (drop i buf) = DELIMITER")
      case True
      with fits "1.prems" show ?thesis by (auto simp: indexOf.simps [of buf DELIMITER i] occurs_at_def)
    next
      case False
      with fits "1.prems" have nxt: "indexOf buf DELIMITER (Suc i) = int m"
        by (simp add: indexOf.simps [of buf DELIMITER i])
      from "1.hyps" [OF fits False nxt]
      have ih: "Suc i \<le> m" "occurs_at buf m" "\<forall>p. Suc i \<le> p \<and> p < m \<longrightarrow> \<not> occurs_at buf p"
        by simp_all
      have "\<not> occurs_at buf p" if "i \<le> p" "p < m" for p
      proof (cases "p = i")
        case True
        with False show ?thesis by (simp add: occurs_at_def)
      next
        case False
        with that ih(3) show ?thesis by simp
      qed
      with ih show ?thesis by simp
    qed
  qed
qed

lemma filter_upt_none: "(\<And>p. i \<le> p \<Longrightarrow> \<not> P p) \<Longrightarrow> filter P [i..<n] = []"
  by (simp add: filter_empty_conv)

lemma filter_upt_first:
  assumes "i \<le> m" "m < n" "P m" "\<And>p. i \<le> p \<Longrightarrow> p < m \<Longrightarrow> \<not> P p"
  shows "filter P [i..<n] = m # filter P [Suc m..<n]"
proof -
  have "[i..<n] = [i..<m] @ m # [Suc m..<n]"
    using assms(1,2) by (metis le_add_diff_inverse less_imp_le_nat upt_add_eq_append upt_conv_Cons)
  moreover have "filter P [i..<m] = []"
    using assms(4) by (simp add: filter_empty_conv)
  ultimately show ?thesis using assms(3) by simp
qed

lemma scanLoop_eq:
  "scanLoop buf a k i =
     map (\<lambda>p. a + (int p - int k) + 1) (filter (occurs_at buf) [i..<length buf])"
proof (induction buf a k i rule: scanLoop.induct)
  case (1 buf a k i)
  show ?case
  proof (cases "indexOf buf DELIMITER i = - 1")
    case True
    then have "filter (occurs_at buf) [i..<length buf] = []"
      by (intro filter_upt_none) (rule indexOf_none)
    with True show ?thesis by (simp add: scanLoop.simps [of buf a k i])
  next
    case False
    with indexOf_range [of buf DELIMITER i] have "0 \<le> indexOf buf DELIMITER i" by simp
    then obtain m where m: "indexOf buf DELIMITER i = int m"
      using nonneg_int_cases by blast
    from indexOf_some [OF m]
    have im: "i \<le> m" and occ: "occurs_at buf m"
      and first: "\<And>p. i \<le> p \<Longrightarrow> p < m \<Longrightarrow> \<not> occurs_at buf p"
      by simp_all
    from occurs_at_fits [OF occ] have "m < length buf" by simp
    from filter_upt_first [OF im this, of "occurs_at buf", OF occ first]
    have split: "filter (occurs_at buf) [i..<length buf]
                   = m # filter (occurs_at buf) [Suc m..<length buf]" by simp
    from "1.IH" [OF refl False refl refl] m
    have "scanLoop buf a k (Suc m) =
            map (\<lambda>p. a + (int p - int k) + 1) (filter (occurs_at buf) [Suc m..<length buf])"
      by (simp add: nat_add_distrib)
    with m split False show ?thesis
      by (simp add: scanLoop.simps [of buf a k i] nat_add_distrib)
  qed
qed

subsection \<open>Extending the content by a chunk\<close>

lemma occurs_at_append_left:
  assumes "p + 6 \<le> length S"
  shows "occurs_at (S @ c) p = occurs_at S p"
  using assms by (simp add: occurs_at_def DELIMITER_def)

lemma delimiter_positions_append:
  "delimiter_positions (S @ c) =
     delimiter_positions S @ filter (occurs_at (S @ c)) [length S - 5..<length (S @ c)]"
proof -
  let ?d = "length S - 5"
  have "[0..<length (S @ c)] = [0..<?d] @ [?d..<length (S @ c)]"
    by (metis le_add_diff_inverse le0 upt_add_eq_append diff_le_self length_append trans_le_add1)
  then have whole: "delimiter_positions (S @ c) =
      filter (occurs_at (S @ c)) [0..<?d] @ filter (occurs_at (S @ c)) [?d..<length (S @ c)]"
    by (simp add: delimiter_positions_def)
  have low: "filter (occurs_at (S @ c)) [0..<?d] = filter (occurs_at S) [0..<?d]"
    by (rule filter_cong) (auto simp: occurs_at_append_left)
  have "[0..<length S] = [0..<?d] @ [?d..<length S]"
    by (metis le_add_diff_inverse le0 upt_add_eq_append diff_le_self)
  moreover have "filter (occurs_at S) [?d..<length S] = []"
    using occurs_at_fits [of S] by (fastforce simp: filter_empty_conv)
  ultimately have "delimiter_positions S = filter (occurs_at S) [0..<?d]"
    by (simp add: delimiter_positions_def)
  with whole low show ?thesis by simp
qed

lemma take5_append_From:
  "take 5 S = ''From '' \<Longrightarrow> take 5 (S @ c) = ''From ''"
proof -
  assume a: "take 5 S = ''From ''"
  then have "length (take 5 S) = 5" by simp
  then have "5 \<le> length S" by simp
  with a show ?thesis by simp
qed

lemma boundaries_append: "boundaries (S @ c) = boundaries S @ new_boundaries S c"
proof (cases "take 5 S = ''From ''")
  case True
  with take5_append_From [OF True, of c] show ?thesis
    by (simp add: boundaries_def new_boundaries_def delimiter_positions_append)
next
  case False
  have "delimiter_positions S = []" if "take 5 (S @ c) = ''From ''"
  proof -
    have "\<not> occurs_at S p" for p
    proof
      assume occ: "occurs_at S p"
      from occurs_at_fits [OF occ] have "take 5 (S @ c) = take 5 S" by simp
      with that False show False by simp
    qed
    then show ?thesis by (simp add: delimiter_positions_def filter_empty_conv)
  qed
  with False show ?thesis
    by (simp add: boundaries_def new_boundaries_def delimiter_positions_append)
qed

subsection \<open>One call of \<open>_transform\<close>\<close>

lemma prefix_From_iff: "prefix DELIMITER_START X \<longleftrightarrow> take 5 X = ''From ''"
proof
  assume "prefix DELIMITER_START X"
  then obtain Y where "X = ''From '' @ Y" by (auto simp: prefix_def DELIMITER_START_def)
  then show "take 5 X = ''From ''" by simp
next
  assume "take 5 X = ''From ''"
  then have "prefix ''From '' X" by (metis take_is_prefix)
  then show "prefix DELIMITER_START X" by (simp add: DELIMITER_START_def)
qed

lemma prefix_of_From_iff: "prefix X DELIMITER_START \<longleftrightarrow> take (length X) ''From '' = X"
proof
  assume "prefix X DELIMITER_START"
  then obtain Y where "''From '' = X @ Y" by (auto simp: prefix_def DELIMITER_START_def)
  then show "take (length X) ''From '' = X" by (metis append_eq_conv_conj)
next
  assume "take (length X) ''From '' = X"
  then have "prefix X ''From ''" by (metis take_is_prefix)
  then show "prefix X DELIMITER_START" by (simp add: DELIMITER_START_def)
qed

lemma evident_mismatch_iff:
  "evident_mismatch X \<longleftrightarrow> \<not> prefix X DELIMITER_START \<and> \<not> prefix DELIMITER_START X"
proof (cases "5 \<le> length X")
  case len: True
  have "take 5 X = ''From ''" if "prefix X DELIMITER_START"
  proof -
    from that obtain zs where zs: "''From '' = X @ zs"
      by (auto simp: prefix_def DELIMITER_START_def)
    from arg_cong [OF zs, of length] have "length X + length zs = 5" by simp
    with len have "length zs = 0" by linarith
    with zs have "X = ''From ''" by simp
    then show ?thesis by simp
  qed
  with len show ?thesis by (auto simp: evident_mismatch_def prefix_From_iff)
next
  case len: False
  have "take 5 X \<noteq> ''From ''"
  proof
    assume "take 5 X = ''From ''"
    from arg_cong [OF this, of length] len show False by simp
  qed
  with len show ?thesis
    by (auto simp: evident_mismatch_def prefix_From_iff prefix_of_From_iff)
qed

lemma From_prefix_mono: "prefix DELIMITER_START S \<Longrightarrow> prefix DELIMITER_START (S @ c)"
  by (rule prefix_order.trans [OF _ prefixI [OF refl]])

lemma pending_appendD: "pending (S @ c) \<Longrightarrow> pending S"
  unfolding pending_def using append_prefixD by auto

lemma not_pending_cases:
  assumes "\<not> pending S" "\<not> evident_mismatch S"
  shows "prefix DELIMITER_START S"
proof (rule ccontr)
  assume n: "\<not> prefix DELIMITER_START S"
  with assms(2) have p: "prefix S DELIMITER_START" by (simp add: evident_mismatch_iff)
  with assms(1) have "5 \<le> length S" by (simp add: pending_def)
  moreover from p have "length S \<le> 5" using prefix_length_le [OF p] by (simp add: DELIMITER_START_def)
  ultimately have "length S = length DELIMITER_START" by (simp add: DELIMITER_START_def)
  moreover from p obtain zs where zs: "DELIMITER_START = S @ zs" by (auto simp: prefix_def)
  ultimately have "length (S @ zs) = length S" by simp
  then have "zs = []" by simp
  with zs have "S = DELIMITER_START" by simp
  with n show False by simp
qed

lemma positions_shift:
  assumes "d \<le> length S"
  shows "filter (occurs_at (S @ c)) [d..<length (S @ c)] =
         map (\<lambda>q. q + d) (filter (occurs_at (drop d S @ c)) [0..<length (drop d S @ c)])"
proof -
  have "[d..<length (S @ c)] = map (\<lambda>q. q + d) [0..<length (drop d S @ c)]"
    using assms by (simp add: map_add_upt)
  moreover have "occurs_at (S @ c) (q + d) = occurs_at (drop d S @ c) q" for q
  proof -
    have "drop (q + d) (S @ c) = drop q (drop d (S @ c))"
      by (simp only: drop_drop)
    also from assms have "drop d (S @ c) = drop d S @ c" by simp
    finally show ?thesis by (simp only: occurs_at_def)
  qed
  ultimately show ?thesis by (simp add: filter_map comp_def)
qed

lemma new_tail:
  "drop (length (drop (length S - 5) S @ c) - min 5 (length (drop (length S - 5) S @ c)))
        (drop (length S - 5) S @ c)
   = drop (length (S @ c) - 5) (S @ c)"
proof (cases "5 \<le> length S")
  case True
  define A where "A = take (length S - 5) S"
  define T where "T = drop (length S - 5) S"
  have S: "S = A @ T" by (simp add: A_def T_def)
  from True have lT: "length T = 5" and lA: "length A = length S - 5"
    by (simp_all add: T_def A_def)
  have "drop (length (T @ c) - min 5 (length (T @ c))) (T @ c) = drop (length c) (T @ c)"
    using lT by simp
  moreover have "drop (length (S @ c) - 5) (S @ c) = drop (length c) (T @ c)"
    using lT by (simp add: S)
  ultimately show ?thesis by (simp add: T_def)
next
  case False
  have "n - min 5 n = n - 5" for n :: nat by simp
  with False show ?thesis by simp
qed

lemma scanLoop_state_after:
  "scanLoop (drop (length S - 5) S @ c) (int (length S)) (length (drop (length S - 5) S)) 0
   = map (\<lambda>p. int p + 1) (filter (occurs_at (S @ c)) [length S - 5..<length (S @ c)])"
proof -
  let ?d = "length S - 5"
  have "?d \<le> length S" by simp
  from positions_shift [OF this, of c]
  have "map (\<lambda>p. int p + 1) (filter (occurs_at (S @ c)) [?d..<length (S @ c)])
        = map (\<lambda>q. int (q + ?d) + 1)
            (filter (occurs_at (drop ?d S @ c)) [0..<length (drop ?d S @ c)])"
    by (simp add: comp_def)
  moreover have "int (length S) + (int q - int (length (drop ?d S))) + 1 = int (q + ?d) + 1" for q
    by simp
  ultimately show ?thesis by (simp add: scanLoop_eq)
qed

lemma no_positions_short: "length X < 6 \<Longrightarrow> filter (occurs_at X) [i..<n] = []"
  using occurs_at_fits [of X] by (fastforce simp: filter_empty_conv)

lemma transform_settled:
  assumes np: "\<not> pending S" and ok: "\<not> (b \<and> evident_mismatch S)"
  shows "transform (state_after b S) c = (state_after b (S @ c), new_boundaries S c, None)"
    and "\<not> (b \<and> evident_mismatch (S @ c))"
proof -
  have np': "\<not> pending (S @ c)" using np pending_appendD by blast
  have flag: "\<not> (take 5 S \<noteq> ''From '' \<and> take 5 (S @ c) = ''From '')"
  proof
    assume a: "take 5 S \<noteq> ''From '' \<and> take 5 (S @ c) = ''From ''"
    then have short: "length S < 5" by (cases "5 \<le> length S") auto
    from a have "prefix DELIMITER_START (S @ c)" by (simp add: prefix_From_iff)
    then have "prefix S DELIMITER_START \<or> prefix DELIMITER_START S"
      by (metis prefix_same_cases prefixI)
    with a have "prefix S DELIMITER_START" by (auto simp: prefix_From_iff)
    with short np show False by (simp add: pending_def)
  qed
  have chk: "firstChunkCheck (state_after b S) X = (state_after b S, [], None)" for X
    using np by (simp add: firstChunkCheck_def state_after_def)
  have st: "state_after b (S @ c) =
      (state_after b S)\<lparr> tail := drop (length (S @ c) - 5) (S @ c),
                          absoluteOffset := int (length S) + int (length c) \<rparr>"
    using np np' by (simp add: state_after_def)
  define T where "T = drop (length S - 5) S"
  have t: "tail (state_after b S) = T"
    and a: "absoluteOffset (state_after b S) = int (length S)"
    and f: "isFirstChunk (state_after b S) = False"
    using np by (simp_all add: state_after_def T_def)
  have dl: "length DELIMITER - 1 = 5" by (simp add: DELIMITER_def)
  have nt: "slice_from (T @ c) (length (T @ c) - min (length DELIMITER - 1) (length (T @ c)))
            = drop (length (S @ c) - 5) (S @ c)"
    using new_tail [of S c] by (simp only: slice_from_def T_def dl)
  have sl: "scanLoop (T @ c) (int (length S)) (length T) 0 = new_boundaries S c"
    using flag scanLoop_state_after [of S c] by (simp add: new_boundaries_def T_def)
  have "transform (state_after b S) c =
          ((state_after b S)\<lparr> tail := drop (length (S @ c) - 5) (S @ c),
                               absoluteOffset := int (length S) + int (length c) \<rparr>,
           new_boundaries S c, None)"
    unfolding transform_def Let_def
    by (simp only: chk t a f nt sl prod.case option.case if_False append_Nil) (simp add: a)
  with st show "transform (state_after b S) c = (state_after b (S @ c), new_boundaries S c, None)"
    by simp
  show "\<not> (b \<and> evident_mismatch (S @ c))"
  proof
    assume a: "b \<and> evident_mismatch (S @ c)"
    with ok have "\<not> evident_mismatch S" by simp
    from not_pending_cases [OF np this] have "prefix DELIMITER_START (S @ c)"
      by (rule From_prefix_mono)
    with a show False by (simp add: evident_mismatch_iff)
  qed
qed

lemma evident_mismatch_long:
  "5 \<le> length X \<Longrightarrow> evident_mismatch X \<longleftrightarrow> take 5 X \<noteq> ''From ''"
  by (simp add: evident_mismatch_def)

lemma evident_mismatch_short:
  "length X < 5 \<Longrightarrow> evident_mismatch X \<longleftrightarrow> take (length X) ''From '' \<noteq> X"
  by (simp add: evident_mismatch_def)

lemma length_DELIMITER_START: "length DELIMITER_START = 5"
  by (simp add: DELIMITER_START_def)

lemma length_DELIMITER: "length DELIMITER = 6"
  by (simp add: DELIMITER_def)

lemma startsWithFromLine_iff: "startsWithFromLine X \<longleftrightarrow> take 5 X = ''From ''"
proof (cases "length X < 5")
  case True
  have "take 5 X \<noteq> ''From ''"
  proof
    assume "take 5 X = ''From ''"
    from arg_cong [OF this, of length] True show False by simp
  qed
  with True show ?thesis by (simp add: startsWithFromLine_def length_DELIMITER_START)
next
  case False
  then show ?thesis
    by (simp add: startsWithFromLine_def length_DELIMITER_START slice_def)
       (simp add: DELIMITER_START_def)
qed

lemma firstChunkCheck_eq:
  "firstChunkCheck s X =
     (if isFirstChunk s then
        if 5 \<le> length X then
          if take 5 X = ''From '' then (s\<lparr> isFirstChunk := False \<rparr>, [0], None)
          else if strict s then (s\<lparr> isFirstChunk := False \<rparr>, [], Some MboxValidationError)
          else (s\<lparr> isFirstChunk := False \<rparr>, [], None)
        else if take (length X) ''From '' \<noteq> X then
          if strict s then (s\<lparr> isFirstChunk := False \<rparr>, [], Some MboxValidationError)
          else (s\<lparr> isFirstChunk := False \<rparr>, [], None)
        else (s, [], None)
      else (s, [], None))"
proof -
  have "slice DELIMITER_START 0 (length X) = take (length X) ''From ''"
    by (simp add: slice_def DELIMITER_START_def)
  then show ?thesis
    by (simp add: firstChunkCheck_def Let_def startsWithFromLine_iff length_DELIMITER_START)
qed

lemma transform_pending:
  assumes p: "pending S"
  shows "transform (state_after b S) c =
           (if b \<and> evident_mismatch (S @ c)
            then ((state_after b S)\<lparr> isFirstChunk := False \<rparr>, [], Some MboxValidationError)
            else (state_after b (S @ c), new_boundaries S c, None))"
proof -
  from p have short: "length S < 5" and pre: "prefix S DELIMITER_START"
    by (simp_all add: pending_def)
  from short have t: "tail (state_after b S) = S"
    and a: "absoluteOffset (state_after b S) = int (length S)"
    and f: "isFirstChunk (state_after b S) = True"
    and str: "strict (state_after b S) = b"
    using p by (simp_all add: state_after_def)
  have d0: "length S - 5 = 0" using short by simp
  have sl: "scanLoop (S @ c) (int (length S)) (length S) 0
              = map (\<lambda>p. int p + 1) (filter (occurs_at (S @ c)) [0..<length (S @ c)])"
    using scanLoop_state_after [of S c] by (simp add: d0)
  have nS: "take 5 S \<noteq> ''From ''"
  proof
    assume "take 5 S = ''From ''"
    from arg_cong [OF this, of length] short show False by simp
  qed
  show ?thesis
  proof (cases "5 \<le> length (S @ c)")
    case long: True
    then have np': "\<not> pending (S @ c)" by (simp add: pending_def)
    have tl: "min 5 (length S + length c) = 5"
      using long by simp
    show ?thesis
    proof (cases "take 5 (S @ c) = ''From ''")
      case True
      with long have chk: "firstChunkCheck (state_after b S) (S @ c)
                      = ((state_after b S)\<lparr> isFirstChunk := False \<rparr>, [0], None)"
        by (simp add: firstChunkCheck_eq f)
      from True long have nm: "\<not> evident_mismatch (S @ c)"
        by (simp add: evident_mismatch_long)
      have nb: "new_boundaries S c
                 = 0 # map (\<lambda>p. int p + 1) (filter (occurs_at (S @ c)) [0..<length (S @ c)])"
        using True nS by (simp add: new_boundaries_def d0)
      have "transform (state_after b S) c =
              ((state_after b S)\<lparr> isFirstChunk := False,
                   tail := drop (length (S @ c) - 5) (S @ c),
                   absoluteOffset := int (length S) + int (length c) \<rparr>,
               new_boundaries S c, None)"
        unfolding transform_def Let_def t
        by (simp only: chk prod.case option.case) (simp add: a sl nb slice_from_def length_DELIMITER tl)
      moreover have "state_after b (S @ c) = (state_after b S)\<lparr> isFirstChunk := False,
                   tail := drop (length (S @ c) - 5) (S @ c),
                   absoluteOffset := int (length S) + int (length c) \<rparr>"
        using np' by (simp add: state_after_def)
      ultimately show ?thesis using nm by simp
    next
      case False
      with long have m: "evident_mismatch (S @ c)" by (simp add: evident_mismatch_long)
      show ?thesis
      proof (cases b)
        case True
        with False long have chk: "firstChunkCheck (state_after b S) (S @ c)
            = ((state_after b S)\<lparr> isFirstChunk := False \<rparr>, [], Some MboxValidationError)"
          using f str by (simp add: firstChunkCheck_eq)
        show ?thesis
          unfolding transform_def Let_def t
          by (simp only: chk prod.case option.case) (simp add: True m)
      next
        case nb: False
        with False long have chk: "firstChunkCheck (state_after b S) (S @ c)
            = ((state_after b S)\<lparr> isFirstChunk := False \<rparr>, [], None)"
          using f str by (simp add: firstChunkCheck_eq)
        have nbd: "new_boundaries S c
                 = map (\<lambda>p. int p + 1) (filter (occurs_at (S @ c)) [0..<length (S @ c)])"
          using False by (simp add: new_boundaries_def d0)
        have "transform (state_after b S) c =
              ((state_after b S)\<lparr> isFirstChunk := False,
                   tail := drop (length (S @ c) - 5) (S @ c),
                   absoluteOffset := int (length S) + int (length c) \<rparr>,
               new_boundaries S c, None)"
          unfolding transform_def Let_def t
          by (simp only: chk prod.case option.case)
             (simp add: a sl nbd slice_from_def length_DELIMITER tl)
        moreover have "state_after b (S @ c) = (state_after b S)\<lparr> isFirstChunk := False,
                   tail := drop (length (S @ c) - 5) (S @ c),
                   absoluteOffset := int (length S) + int (length c) \<rparr>"
          using np' by (simp add: state_after_def)
        ultimately show ?thesis using nb by simp
      qed
    qed
  next
    case notlong: False
    then have short': "length (S @ c) < 5" by simp
    then have six: "length (S @ c) < 6" by simp
    have nF: "take 5 (S @ c) \<noteq> ''From ''"
    proof
      assume "take 5 (S @ c) = ''From ''"
      from arg_cong [OF this, of length] short' show False by simp
    qed
    have nbd: "new_boundaries S c = []"
      using nF no_positions_short [OF six] by (simp add: new_boundaries_def)
    have sl0: "scanLoop (S @ c) (int (length S)) (length S) 0 = []"
      using no_positions_short [OF six] by (simp add: sl)
    have tl: "min 5 (length S + length c) = length S + length c"
      using short' by simp
    have tk: "take 5 S = S" "take (5 - length S) c = c" using short' by simp_all
    show ?thesis
    proof (cases "take (length (S @ c)) ''From '' = S @ c")
      case True
      with short' have nm: "\<not> evident_mismatch (S @ c)" by (simp add: evident_mismatch_short)
      from True short' have p': "pending (S @ c)" by (simp add: pending_def prefix_of_From_iff)
      from True notlong have chk: "firstChunkCheck (state_after b S) (S @ c)
            = (state_after b S, [], None)"
        by (simp add: firstChunkCheck_eq f)
      have "transform (state_after b S) c =
              ((state_after b S)\<lparr> tail := S @ c,
                   absoluteOffset := int (length S) + int (length c) \<rparr>,
               new_boundaries S c, None)"
        unfolding transform_def Let_def t
        by (simp only: chk prod.case option.case)
           (simp add: a f sl0 nbd slice_def length_DELIMITER_START tk)
      moreover have "state_after b (S @ c) = (state_after b S)\<lparr> tail := S @ c,
                   absoluteOffset := int (length S) + int (length c) \<rparr>"
        using p' p short' by (simp add: state_after_def)
      ultimately show ?thesis using nm by simp
    next
      case False
      with short' have m: "evident_mismatch (S @ c)" by (simp add: evident_mismatch_short)
      from False short' have np': "\<not> pending (S @ c)" by (simp add: pending_def prefix_of_From_iff)
      show ?thesis
      proof (cases b)
        case True
        with False notlong have chk: "firstChunkCheck (state_after b S) (S @ c)
            = ((state_after b S)\<lparr> isFirstChunk := False \<rparr>, [], Some MboxValidationError)"
          using f str by (simp add: firstChunkCheck_eq)
        show ?thesis
          unfolding transform_def Let_def t
          by (simp only: chk prod.case option.case) (simp add: True m)
      next
        case nb: False
        with False notlong have chk: "firstChunkCheck (state_after b S) (S @ c)
            = ((state_after b S)\<lparr> isFirstChunk := False \<rparr>, [], None)"
          using f str by (simp add: firstChunkCheck_eq)
        have "transform (state_after b S) c =
              ((state_after b S)\<lparr> isFirstChunk := False, tail := S @ c,
                   absoluteOffset := int (length S) + int (length c) \<rparr>,
               new_boundaries S c, None)"
          unfolding transform_def Let_def t
          by (simp only: chk prod.case option.case)
             (simp add: a sl0 nbd slice_from_def length_DELIMITER tl)
        moreover have "state_after b (S @ c) = (state_after b S)\<lparr> isFirstChunk := False,
                   tail := S @ c, absoluteOffset := int (length S) + int (length c) \<rparr>"
          using np' short' by (simp add: state_after_def)
        ultimately show ?thesis using nb by simp
      qed
    qed
  qed
qed

subsection \<open>A whole stream, under any chunking\<close>

lemma pending_not_mismatch: "pending S \<Longrightarrow> \<not> evident_mismatch S"
  by (simp add: pending_def evident_mismatch_iff)

lemma transform_state_after:
  assumes "\<not> (b \<and> evident_mismatch S)"
  shows "transform (state_after b S) c =
           (if b \<and> evident_mismatch (S @ c)
            then ((state_after b S)\<lparr> isFirstChunk := False \<rparr>, [], Some MboxValidationError)
            else (state_after b (S @ c), new_boundaries S c, None))"
proof (cases "pending S")
  case True
  then show ?thesis by (rule transform_pending)
next
  case False
  from transform_settled [OF False assms, of c] show ?thesis by simp
qed

lemma streamWrite_state_after:
  assumes "\<not> (b \<and> evident_mismatch S)"
  shows "streamWrite (state_after b S) c =
           (if b \<and> evident_mismatch (S @ c)
            then ((state_after b S)\<lparr> isFirstChunk := False, destroyed := True \<rparr>, [],
                  Some MboxValidationError)
            else (state_after b (S @ c), new_boundaries S c, None))"
proof -
  have "\<not> writableEnded (state_after b S)" "\<not> destroyed (state_after b S)"
    by (simp_all add: state_after_def)
  then show ?thesis
    by (simp add: streamWrite_def transform_state_after [OF assms])
qed

lemma evident_mismatch_append: "evident_mismatch S \<Longrightarrow> evident_mismatch (S @ c)"
proof -
  assume m: "evident_mismatch S"
  have "\<not> prefix (S @ c) DELIMITER_START"
    using m append_prefixD by (auto simp: evident_mismatch_iff)
  moreover have "\<not> prefix DELIMITER_START (S @ c)"
  proof
    assume "prefix DELIMITER_START (S @ c)"
    then have "prefix S DELIMITER_START \<or> prefix DELIMITER_START S"
      by (metis prefix_same_cases prefixI)
    with m show False by (simp add: evident_mismatch_iff)
  qed
  ultimately show ?thesis by (simp add: evident_mismatch_iff)
qed

lemma boundaries_short: "length S < 5 \<Longrightarrow> boundaries S = []"
proof -
  assume short: "length S < 5"
  have "take 5 S \<noteq> ''From ''"
  proof
    assume "take 5 S = ''From ''"
    from arg_cong [OF this, of length] short show False by simp
  qed
  moreover from short have "length S < 6" by simp
  ultimately show ?thesis
    by (simp add: boundaries_def delimiter_positions_def no_positions_short)
qed

lemma feed_state_after:
  "\<not> (b \<and> evident_mismatch S) \<Longrightarrow> feed (state_after b S) cs = (s', out, r) \<Longrightarrow>
     r = (if b \<and> evident_mismatch (S @ concat cs) then Some MboxValidationError else None)
     \<and> (r = None \<longrightarrow> s' = state_after b (S @ concat cs))
     \<and> (r = None \<longrightarrow> boundaries (S @ concat cs) = boundaries S @ out)
     \<and> (r \<noteq> None \<longrightarrow> out = [])
     \<and> (r \<noteq> None \<longrightarrow> pending S)
     \<and> (r \<noteq> None \<longrightarrow> (\<exists>S'. pending S' \<and> s' = (state_after b S')\<lparr> isFirstChunk := False, destroyed := True \<rparr>))"
proof (induction cs arbitrary: S s' out r)
  case Nil
  then show ?case by auto
next
  case (Cons c cs)
  note ok = Cons.prems(1) and fd = Cons.prems(2)
  show ?case
  proof (cases "b \<and> evident_mismatch (S @ c)")
    case True
    with streamWrite_state_after [OF ok, of c] fd
    have res: "s' = (state_after b S)\<lparr> isFirstChunk := False, destroyed := True \<rparr>" "out = []"
      "r = Some MboxValidationError"
      by simp_all
    from True have "evident_mismatch ((S @ c) @ concat cs)"
      using evident_mismatch_append by blast
    then have m: "evident_mismatch (S @ concat (c # cs))" by simp
    have pS: "pending S"
    proof (rule ccontr)
      assume "\<not> pending S"
      from transform_settled(2) [OF this ok, of c] True show False by simp
    qed
    from res m True pS show ?thesis by auto
  next
    case False
    with streamWrite_state_after [OF ok, of c]
    have tr: "streamWrite (state_after b S) c = (state_after b (S @ c), new_boundaries S c, None)"
      by simp
    obtain s2 out2 r2 where f2: "feed (state_after b (S @ c)) cs = (s2, out2, r2)"
      by (cases "feed (state_after b (S @ c)) cs") auto
    with tr fd have res: "s' = s2" "out = new_boundaries S c @ out2" "r = r2" by simp_all
    from Cons.IH [OF False f2]
    have ih1: "r2 = (if b \<and> evident_mismatch ((S @ c) @ concat cs)
                     then Some MboxValidationError else None)"
      and ih2: "r2 = None \<longrightarrow> s2 = state_after b ((S @ c) @ concat cs)"
      and ih3: "r2 = None \<longrightarrow> boundaries ((S @ c) @ concat cs) = boundaries (S @ c) @ out2"
      and ih4: "r2 \<noteq> None \<longrightarrow> out2 = []"
      and ih5: "r2 \<noteq> None \<longrightarrow> pending (S @ c)"
      and ih6: "r2 \<noteq> None \<longrightarrow>
                 (\<exists>S'. pending S' \<and> s2 = (state_after b S')\<lparr> isFirstChunk := False, destroyed := True \<rparr>)"
      by blast+
    have r: "r = (if b \<and> evident_mismatch (S @ concat (c # cs))
                  then Some MboxValidationError else None)"
      using ih1 res by simp
    have s: "r = None \<longrightarrow> s' = state_after b (S @ concat (c # cs))"
      using ih2 res by simp
    have bd: "r = None \<longrightarrow> boundaries (S @ concat (c # cs)) = boundaries S @ out"
      using ih3 res boundaries_append [of S c] by simp
    have err: "out = [] \<and> pending S" if "r \<noteq> None"
    proof -
      from that res ih4 ih5 have o2: "out2 = []" and p: "pending (S @ c)" by simp_all
      from p have "length (S @ c) < 5" by (simp add: pending_def)
      from boundaries_short [OF this] boundaries_append [of S c]
      have "new_boundaries S c = []" by simp
      with o2 res pending_appendD [OF p] show ?thesis by simp
    qed
    have st: "r \<noteq> None \<longrightarrow>
                (\<exists>S'. pending S' \<and> s' = (state_after b S')\<lparr> isFirstChunk := False, destroyed := True \<rparr>)"
      using ih6 res by simp
    from r s bd err st show ?thesis by blast
  qed
qed

lemma MboxParserStream_state_after:
  "MboxParserStream options = state_after (strict (MboxParserStream options)) []"
  by (simp add: MboxParserStream_def state_after_def pending_def)

lemma strict_MboxParserStream:
  "strict (MboxParserStream options) = (case options of Some b \<Rightarrow> b | None \<Rightarrow> False)"
  by (simp add: MboxParserStream_def)

lemma feed_fresh:
  assumes "feed (MboxParserStream options) chunks = (s', out, r)"
  shows "r = (if strict (MboxParserStream options) \<and> evident_mismatch (concat chunks)
              then Some MboxValidationError else None)"
    and "r = None \<Longrightarrow> s' = state_after (strict (MboxParserStream options)) (concat chunks)"
    and "r = None \<Longrightarrow> out = boundaries (concat chunks)"
    and "r \<noteq> None \<Longrightarrow> out = []"
    and "r \<noteq> None \<Longrightarrow> \<exists>S'. pending S' \<and>
           s' = (state_after (strict (MboxParserStream options)) S')\<lparr> isFirstChunk := False, destroyed := True \<rparr>"
proof -
  let ?b = "strict (MboxParserStream options)"
  have ok: "\<not> (?b \<and> evident_mismatch [])" by (simp add: evident_mismatch_def)
  from assms have "feed (state_after ?b []) chunks = (s', out, r)"
    by (simp flip: MboxParserStream_state_after)
  from feed_state_after [OF ok this] boundaries_short [of "[]"]
  show "r = (if ?b \<and> evident_mismatch (concat chunks) then Some MboxValidationError else None)"
    and "r = None \<Longrightarrow> s' = state_after ?b (concat chunks)"
    and "r = None \<Longrightarrow> out = boundaries (concat chunks)"
    and "r \<noteq> None \<Longrightarrow> out = []"
    and "r \<noteq> None \<Longrightarrow> \<exists>S'. pending S' \<and> s' = (state_after ?b S')\<lparr> isFirstChunk := False, destroyed := True \<rparr>"
    by simp_all
qed

lemma streamEnd_open:
  "\<not> writableEnded s \<Longrightarrow> \<not> destroyed s \<Longrightarrow>
     streamEnd s = (s\<lparr> writableEnded := True \<rparr>, [], None)"
  by (simp add: streamEnd_def flush_def)

lemma scan_feed:
  "snd (scan (MboxParserStream options) chunks) = snd (feed (MboxParserStream options) chunks)"
proof -
  obtain s' out r where f: "feed (MboxParserStream options) chunks = (s', out, r)"
    by (cases "feed (MboxParserStream options) chunks") auto
  show ?thesis
  proof (cases r)
    case None
    with feed_fresh(2) [OF f] have "\<not> writableEnded s'" "\<not> destroyed s'"
      by (simp_all add: state_after_def)
    with f None show ?thesis by (simp add: scan_def streamEnd_open)
  next
    case (Some e)
    with f show ?thesis by (simp add: scan_def)
  qed
qed

lemma scan_fresh:
  "snd (scan (MboxParserStream options) chunks) =
     (if strict (MboxParserStream options) \<and> evident_mismatch (concat chunks)
      then ([], Some MboxValidationError) else (boundaries (concat chunks), None))"
proof -
  obtain s' out r where f: "feed (MboxParserStream options) chunks = (s', out, r)"
    by (cases "feed (MboxParserStream options) chunks") auto
  from feed_fresh(1,3,4) [OF f] f show ?thesis by (auto simp: scan_feed)
qed

lemma boundaries_member:
  "x \<in> set (boundaries S) \<longleftrightarrow>
     (x = 0 \<and> take 5 S = ''From '') \<or> (\<exists>p. x = int p + 1 \<and> occurs_at S p)"
proof -
  have "occurs_at S p \<Longrightarrow> p < length S" for p using occurs_at_fits [of S p] by simp
  then show ?thesis by (auto simp: boundaries_def delimiter_positions_def)
qed

lemma sorted_boundaries: "sorted_wrt (<) (boundaries S)"
proof -
  have "sorted_wrt (<) (filter (occurs_at S) [0..<length S])"
    by (rule sorted_wrt_filter) (rule sorted_wrt_upt)
  then have "sorted_wrt (\<lambda>x y. int x + 1 < int y + 1) (filter (occurs_at S) [0..<length S])"
    by (rule sorted_wrt_mono_rel [rotated]) simp
  then have "sorted_wrt (<) (map (\<lambda>p. int p + 1) (delimiter_positions S))"
    by (simp only: delimiter_positions_def sorted_wrt_map)
  then show ?thesis by (auto simp: boundaries_def sorted_wrt_append)
qed

subsection \<open>Facts about boundaries used below\<close>

lemma boundaries_example_mbox: "boundaries example_mbox = [0, 35]"
  by code_simp

lemma occurs_at_nth: "occurs_at S p \<Longrightarrow> S ! p = CHR 0x0A"
proof -
  assume occ: "occurs_at S p"
  from occurs_at_fits [OF occ] have "p < length S" by simp
  then have "S ! p = take (length DELIMITER) (drop p S) ! 0"
    by (simp add: length_DELIMITER)
  also from occ have "\<dots> = DELIMITER ! 0" by (simp add: occurs_at_def)
  finally show ?thesis by (simp add: DELIMITER_def)
qed

lemma pushed_cases:
  "x \<in> set (fst (snd (scan (MboxParserStream options) chunks))) \<Longrightarrow>
     (x = 0 \<and> take 5 (concat chunks) = ''From '') \<or>
     (\<exists>p. x = int p + 1 \<and> occurs_at (concat chunks) p)"
  by (auto simp: scan_fresh boundaries_member split: if_splits)

lemma occurs_at_sublist: "occurs_at S p \<Longrightarrow> sublist DELIMITER S"
proof -
  assume occ: "occurs_at S p"
  have "S = take p S @ take (length DELIMITER) (drop p S) @ drop (length DELIMITER) (drop p S)"
    by (simp only: append_take_drop_id)
  with occ have "S = take p S @ DELIMITER @ drop (length DELIMITER) (drop p S)"
    by (simp only: occurs_at_def)
  then show ?thesis unfolding sublist_def by blast
qed

lemma occurs_at_nth_delimiter:
  assumes occ: "occurs_at S p" and i: "i < 6"
  shows "S ! (p + i) = DELIMITER ! i"
proof -
  from occurs_at_fits [OF occ] i have "p + i < length S" by simp
  then have "S ! (p + i) = take (length DELIMITER) (drop p S) ! i"
    using i by (simp add: length_DELIMITER)
  with occ show ?thesis by (simp add: occurs_at_def)
qed

lemma delimiter_inner_bytes:
  assumes "0 < i" "i < 6"
  shows "DELIMITER ! i \<noteq> CHR 0x0A"
proof -
  from assms have "i = 1 \<or> i = 2 \<or> i = 3 \<or> i = 4 \<or> i = 5" by arith
  then show ?thesis by (auto simp: DELIMITER_def)
qed

lemma occurs_at_junction:
  assumes ne: "A \<noteq> []" and nl: "last A = CHR 0x0A" and fr: "take 5 B = ''From ''"
  shows "occurs_at (A @ B) p \<longleftrightarrow>
           occurs_at A p \<or> p = length A - 1 \<or> (length A \<le> p \<and> occurs_at B (p - length A))"
proof -
  from ne have lenA: "0 < length A" by simp
  consider (inside) "p + 6 \<le> length A" | (right) "length A \<le> p"
    | (at) "p = length A - 1" | (across) "p + 1 < length A" "length A < p + 6"
    using lenA by linarith
  then show ?thesis
  proof cases
    case inside
    then show ?thesis by (auto simp: occurs_at_append_left)
  next
    case right
    then have "occurs_at (A @ B) p = occurs_at B (p - length A)"
      by (simp add: occurs_at_def)
    moreover from right have "\<not> occurs_at A p" using occurs_at_fits [of A p] by auto
    moreover from right lenA have "p \<noteq> length A - 1" by linarith
    ultimately show ?thesis using right by simp
  next
    case at
    from ne nl have A: "A = butlast A @ [CHR 0x0A]" by (metis append_butlast_last_id)
    have "drop p (A @ B) = CHR 0x0A # B"
    proof -
      have "drop p ((butlast A @ [CHR 0x0A]) @ B) = CHR 0x0A # B"
        using at by simp
      with A show ?thesis by simp
    qed
    then have "take (length DELIMITER) (drop p (A @ B)) = CHR 0x0A # take 5 B"
      by (simp add: length_DELIMITER)
    with fr have "occurs_at (A @ B) p" by (simp add: occurs_at_def DELIMITER_def)
    with at show ?thesis by simp
  next
    case across
    have "\<not> occurs_at (A @ B) p"
    proof
      assume occ: "occurs_at (A @ B) p"
      define i where "i = length A - 1 - p"
      from across have i: "0 < i" "i < 6" and pi: "p + i = length A - 1"
        by (simp_all add: i_def)
      from occurs_at_nth_delimiter [OF occ i(2)] pi
      have "(A @ B) ! (length A - 1) = DELIMITER ! i" by simp
      moreover from ne nl have "(A @ B) ! (length A - 1) = CHR 0x0A"
        by (simp add: nth_append last_conv_nth)
      ultimately show False using delimiter_inner_bytes [OF i] by simp
    qed
    moreover from across have "\<not> occurs_at A p" using occurs_at_fits [of A p] by auto
    ultimately show ?thesis using across by auto
  qed
qed

lemma filter_upt_pair:
  assumes "a < b" "b < n" "\<And>p. P p \<longleftrightarrow> p = a \<or> p = b"
  shows "filter P [0..<n] = [a, b]"
proof (rule sorted_distinct_set_unique)
  show "sorted (filter P [0..<n])" by (rule sorted_filter [where f = id, simplified]) simp
  show "distinct (filter P [0..<n])" by simp
  show "sorted [a, b]" using assms(1) by simp
  show "distinct [a, b]" using assms(1) by simp
  show "set (filter P [0..<n]) = set [a, b]" using assms by auto
qed

lemma three_messages_positions:
  assumes m1: "take 5 m1 = ''From ''" "last m1 = CHR 0x0A" "\<not> sublist DELIMITER m1"
    and m2: "take 5 m2 = ''From ''" "last m2 = CHR 0x0A" "\<not> sublist DELIMITER m2"
    and m3: "take 5 m3 = ''From ''" "last m3 = CHR 0x0A" "\<not> sublist DELIMITER m3"
  shows "boundaries (m1 @ m2 @ m3) = [0, int (length m1), int (length m1) + int (length m2)]"
proof -
  from arg_cong [OF m1(1), of length] have l1: "5 \<le> length m1" by simp
  from arg_cong [OF m2(1), of length] have l2: "5 \<le> length m2" by simp
  from arg_cong [OF m3(1), of length] have l3: "5 \<le> length m3" by simp
  from l1 l2 have ne: "m1 \<noteq> []" "m2 \<noteq> []" by auto
  have no: "\<not> occurs_at m1 p" "\<not> occurs_at m2 p" "\<not> occurs_at m3 p" for p
    using m1(3) m2(3) m3(3) occurs_at_sublist by blast+
  have f23: "take 5 (m2 @ m3) = ''From ''" using m2(1) by (rule take5_append_From)
  have inner: "occurs_at (m2 @ m3) q \<longleftrightarrow> q = length m2 - 1" for q
    using occurs_at_junction [OF ne(2) m2(2) m3(1), of q] no by simp
  have outer: "occurs_at (m1 @ m2 @ m3) p \<longleftrightarrow>
                 p = length m1 - 1 \<or> p = length m1 + length m2 - 1" for p
    using occurs_at_junction [OF ne(1) m1(2) f23, of p] no l1 l2 by (auto simp: inner)
  have "delimiter_positions (m1 @ m2 @ m3) = [length m1 - 1, length m1 + length m2 - 1]"
    unfolding delimiter_positions_def
    by (rule filter_upt_pair) (use l1 l2 l3 outer in auto)
  moreover have "take 5 (m1 @ m2 @ m3) = ''From ''" using m1(1) by (rule take5_append_From)
  ultimately show ?thesis using l1 l2 by (simp add: boundaries_def)
qed

lemma count_list_distinct: "distinct xs \<Longrightarrow> x \<in> set xs \<Longrightarrow> count_list xs x = 1"
  by (induction xs) auto

lemma concat_take_prefix: "prefix (concat (take n xs)) (concat xs)"
proof -
  have "concat xs = concat (take n xs) @ concat (drop n xs)"
    by (metis append_take_drop_id concat_append)
  then show ?thesis by (metis prefixI)
qed

lemma pending_prefix: "prefix X Y \<Longrightarrow> pending Y \<Longrightarrow> pending X"
  by (auto simp: prefix_def dest: pending_appendD)

section \<open>Properties of the scanner\<close>

text \<open>
  C1 (chunking invariance). Two lists of chunks with the same concatenation, chunks of
  any sizes and empty chunks included, fed to freshly constructed scanners with the same
  option, give the same list of pushed offsets and the same outcome (the validation error
  or none).
\<close>

theorem C1_chunking_invariance:
  "concat chunks = concat chunks' \<Longrightarrow>
     snd (scan (MboxParserStream options) chunks) = snd (scan (MboxParserStream options) chunks')"
  by (simp add: scan_fresh)

text \<open>An instance of the statement above.\<close>

theorem C1_chunking_invariance_witness:
  "concat [''ab'', [], [CHR 0x0A] @ ''Fr'', ''om x''] = concat [''ab'' @ [CHR 0x0A] @ ''From x'']
   \<and> snd (scan (MboxParserStream (Some False)) [''ab'', [], [CHR 0x0A] @ ''Fr'', ''om x''])
     = snd (scan (MboxParserStream (Some False)) [''ab'' @ [CHR 0x0A] @ ''From x''])"
  using C1_chunking_invariance [of "[''ab'', [], [CHR 0x0A] @ ''Fr'', ''om x'']"
      "[''ab'' @ [CHR 0x0A] @ ''From x'']" "Some False"]
  by simp

text \<open>
  C2 (worked example), as the code has it. However the example stream is cut into
  chunks, a scanner that is not strict pushes exactly the offsets 0 and 35 and ends without
  error: 35 is the length of the first message through the newline before the second
  \<open>From \<close>.
\<close>

theorem C2_example_offsets:
  "concat chunks = example_mbox \<Longrightarrow> \<not> strict (MboxParserStream options) \<Longrightarrow>
     snd (scan (MboxParserStream options) chunks) = ([0, 35], None)"
  by (simp add: scan_fresh boundaries_example_mbox)

text \<open>The scan of the example, fed in one chunk to a scanner that is not strict, pushes
  \<open>[0, 35]\<close> and not \<open>[0, 41]\<close>.\<close>

theorem C2_example_counterexample:
  "snd (scan (MboxParserStream None) [example_mbox]) = ([0, 35], None)
   \<and> fst (snd (scan (MboxParserStream None) [example_mbox])) \<noteq> [0, 41]"
  by code_simp

text \<open>An instance of the statement above.\<close>

theorem C2_example_offsets_witness:
  "concat [''From a@x Mon J'', ''an 1'' @ [CHR 0x0A] @ ''Subj: 1'' @ [CHR 0x0A, CHR 0x0A] @
     ''Body 1'' @ [CHR 0x0A] @ ''Fr'', ''om b@x Mon Jan 2'' @ [CHR 0x0A] @ ''Subj: 2'' @ [CHR 0x0A]]
     = example_mbox
   \<and> \<not> strict (MboxParserStream None)
   \<and> snd (scan (MboxParserStream None) [''From a@x Mon J'', ''an 1'' @ [CHR 0x0A] @ ''Subj: 1'' @ [CHR 0x0A, CHR 0x0A] @
     ''Body 1'' @ [CHR 0x0A] @ ''Fr'', ''om b@x Mon Jan 2'' @ [CHR 0x0A] @ ''Subj: 2'' @ [CHR 0x0A]])
      = ([0, 35], None)"
proof -
  let ?cs = "[''From a@x Mon J'', ''an 1'' @ [CHR 0x0A] @ ''Subj: 1'' @ [CHR 0x0A, CHR 0x0A] @
     ''Body 1'' @ [CHR 0x0A] @ ''Fr'', ''om b@x Mon Jan 2'' @ [CHR 0x0A] @ ''Subj: 2'' @ [CHR 0x0A]]"
  have c: "concat ?cs = example_mbox" by (simp add: example_mbox_def)
  have n: "\<not> strict (MboxParserStream None)" by (simp add: MboxParserStream_def)
  from C2_example_offsets [OF c n] c n show ?thesis by simp
qed

text \<open>
  C3 (offset zero). When the first five bytes of the stream are \<open>From \<close> the scan
  succeeds and offset 0 is pushed. When the stream has at least five bytes and they are
  not \<open>From \<close>, a strict scanner ends with the validation error, and a scanner that is
  not strict succeeds and never pushes offset 0.
\<close>

theorem C3_offset_zero:
  "(take 5 (concat chunks) = ''From '' \<longrightarrow>
      snd (snd (scan (MboxParserStream options) chunks)) = None \<and>
      0 \<in> set (fst (snd (scan (MboxParserStream options) chunks))))
   \<and> (5 \<le> length (concat chunks) \<and> take 5 (concat chunks) \<noteq> ''From '' \<longrightarrow>
      (if strict (MboxParserStream options)
       then snd (snd (scan (MboxParserStream options) chunks)) = Some MboxValidationError
       else snd (snd (scan (MboxParserStream options) chunks)) = None \<and>
            0 \<notin> set (fst (snd (scan (MboxParserStream options) chunks)))))"
proof -
  let ?S = "concat chunks"
  have a: "\<not> evident_mismatch ?S" if "take 5 ?S = ''From ''"
  proof -
    from arg_cong [OF that, of length] have "5 \<le> length ?S" by simp
    with that show ?thesis by (simp add: evident_mismatch_long)
  qed
  have b: "evident_mismatch ?S" if "5 \<le> length ?S" "take 5 ?S \<noteq> ''From ''"
    using that by (simp add: evident_mismatch_long)
  show ?thesis using a b by (auto simp: scan_fresh boundaries_member)
qed

text \<open>An instance of the statement above.\<close>

theorem C3_offset_zero_witness:
  "take 5 (concat [''Fr'', ''om x'']) = ''From ''
   \<and> snd (snd (scan (MboxParserStream None) [''Fr'', ''om x''])) = None
   \<and> 0 \<in> set (fst (snd (scan (MboxParserStream None) [''Fr'', ''om x''])))
   \<and> 5 \<le> length (concat [''fr'', ''om x'']) \<and> take 5 (concat [''fr'', ''om x'']) \<noteq> ''From ''
   \<and> snd (snd (scan (MboxParserStream (Some True)) [''fr'', ''om x''])) = Some MboxValidationError
   \<and> snd (snd (scan (MboxParserStream None) [''fr'', ''om x''])) = None
   \<and> 0 \<notin> set (fst (snd (scan (MboxParserStream None) [''fr'', ''om x''])))"
  using C3_offset_zero [of "[''Fr'', ''om x'']" None]
    C3_offset_zero [of "[''fr'', ''om x'']" "Some True"]
    C3_offset_zero [of "[''fr'', ''om x'']" None]
  by (simp add: MboxParserStream_def)

text \<open>
  C4 (strict validation). A scan ends with the validation error exactly when the
  scanner is strict and the content of the stream is an evident mismatch with \<open>From \<close>;
  then no offset at all was pushed. Call by call: after chunks fed without error, the next
  call of \<open>_transform\<close> raises the error exactly when the scanner is strict and the content
  including the new chunk is an evident mismatch; in that case the content before it was
  not yet one, nothing had been pushed before, and the failing call pushes nothing.
\<close>

theorem C4_strict_validation:
  "(snd (snd (scan (MboxParserStream options) chunks)) = Some MboxValidationError
      \<longleftrightarrow> strict (MboxParserStream options) \<and> evident_mismatch (concat chunks))
   \<and> (snd (snd (scan (MboxParserStream options) chunks)) \<noteq> None
      \<longrightarrow> fst (snd (scan (MboxParserStream options) chunks)) = [])
   \<and> (feed (MboxParserStream options) chunks = (s, out, None) \<longrightarrow>
        (snd (snd (transform s c)) = Some MboxValidationError
           \<longleftrightarrow> strict (MboxParserStream options) \<and> evident_mismatch (concat chunks @ c))
        \<and> (snd (snd (transform s c)) \<noteq> None
           \<longrightarrow> out = [] \<and> fst (snd (transform s c)) = [] \<and> \<not> evident_mismatch (concat chunks)))"
proof -
  let ?b = "strict (MboxParserStream options)"
  have whole: "(snd (snd (scan (MboxParserStream options) chunks)) = Some MboxValidationError
      \<longleftrightarrow> ?b \<and> evident_mismatch (concat chunks))"
    and none: "snd (snd (scan (MboxParserStream options) chunks)) \<noteq> None
      \<longrightarrow> fst (snd (scan (MboxParserStream options) chunks)) = []"
    by (simp_all add: scan_fresh)
  have call: "(snd (snd (transform s c)) = Some MboxValidationError
           \<longleftrightarrow> ?b \<and> evident_mismatch (concat chunks @ c))
        \<and> (snd (snd (transform s c)) \<noteq> None
           \<longrightarrow> out = [] \<and> fst (snd (transform s c)) = [] \<and> \<not> evident_mismatch (concat chunks))"
    if f: "feed (MboxParserStream options) chunks = (s, out, None)"
  proof -
    from feed_fresh(1) [OF f] have ok: "\<not> (?b \<and> evident_mismatch (concat chunks))"
      by (simp split: if_splits)
    from feed_fresh(2,3) [OF f]
    have s: "s = state_after ?b (concat chunks)" and out: "out = boundaries (concat chunks)"
      by simp_all
    note tr = transform_state_after [OF ok, of c]
    show ?thesis
    proof (cases "?b \<and> evident_mismatch (concat chunks @ c)")
      case True
      have "pending (concat chunks)"
      proof (rule ccontr)
        assume "\<not> pending (concat chunks)"
        from transform_settled(2) [OF this ok, of c] True show False by simp
      qed
      then have "length (concat chunks) < 5" by (simp add: pending_def)
      then have "out = []" by (simp add: out boundaries_short)
      with True tr ok show ?thesis by (simp add: s)
    next
      case False
      with tr show ?thesis by (auto simp: s)
    qed
  qed
  from whole none call show ?thesis by blast
qed

text \<open>An instance of the statement above.\<close>

theorem C4_strict_validation_witness:
  "snd (snd (scan (MboxParserStream (Some True)) [''Fr'', ''ed''])) = Some MboxValidationError
   \<and> fst (snd (scan (MboxParserStream (Some True)) [''Fr'', ''ed''])) = []
   \<and> feed (MboxParserStream (Some True)) [''Fr'']
       = (\<lparr> absoluteOffset = 2, tail = ''Fr'', isFirstChunk = True, strict = True,
           writableEnded = False, destroyed = False \<rparr>, [], None)
   \<and> snd (snd (transform
         \<lparr> absoluteOffset = 2, tail = ''Fr'', isFirstChunk = True, strict = True,
           writableEnded = False, destroyed = False \<rparr> ''ed''))
       = Some MboxValidationError
   \<and> fst (snd (transform
         \<lparr> absoluteOffset = 2, tail = ''Fr'', isFirstChunk = True, strict = True,
           writableEnded = False, destroyed = False \<rparr> ''ed'')) = []
   \<and> \<not> evident_mismatch (concat [''Fr''])"
proof -
  let ?s = "\<lparr> absoluteOffset = 2, tail = ''Fr'', isFirstChunk = True, strict = True,
           writableEnded = False, destroyed = False \<rparr>"
  have st: "strict (MboxParserStream (Some True))" by (simp add: MboxParserStream_def)
  have m: "evident_mismatch (concat [''Fr'', ''ed''])" by (simp add: evident_mismatch_def)
  have m': "evident_mismatch (concat [''Fr''] @ ''ed'')" by (simp add: evident_mismatch_def)
  have f: "feed (MboxParserStream (Some True)) [''Fr''] = (?s, [], None)"
    by code_simp
  from C4_strict_validation [of "Some True" "[''Fr'', ''ed'']"] st m
  have 1: "snd (snd (scan (MboxParserStream (Some True)) [''Fr'', ''ed''])) = Some MboxValidationError"
    and 2: "fst (snd (scan (MboxParserStream (Some True)) [''Fr'', ''ed''])) = []"
    by simp_all
  from C4_strict_validation [of "Some True" "[''Fr'']" ?s "[]" "''ed''"] st m' f
  have 3: "snd (snd (transform ?s ''ed'')) = Some MboxValidationError"
    and 4: "fst (snd (transform ?s ''ed'')) = []"
    and 5: "\<not> evident_mismatch (concat [''Fr''])"
    by simp_all
  from 1 2 f 3 4 5 show ?thesis by blast
qed

text \<open>
  C5 (no false positives). Where \<open>From \<close> occurs in the stream right after a byte that
  is not a newline, no boundary is pushed for it, under any chunking and either option. In
  particular the line \<open>>From someone\<close> after a newline gives no boundary at its
  \<open>From \<close>.
\<close>

theorem C5_no_false_positive:
  "(\<forall>A x B. concat chunks = A @ x # ''From '' @ B \<and> x \<noteq> CHR 0x0A \<longrightarrow>
       int (length A + 1) \<notin> set (fst (snd (scan (MboxParserStream options) chunks))))
   \<and> (\<forall>A B. concat chunks = A @ [CHR 0x0A] @ ''>From someone'' @ [CHR 0x0A] @ B \<longrightarrow>
       int (length A + 2) \<notin> set (fst (snd (scan (MboxParserStream options) chunks))))"
proof -
  have gen: "int (length A + 1) \<notin> set (fst (snd (scan (MboxParserStream options) chunks)))"
    if S: "concat chunks = A @ x # Z" and x: "x \<noteq> CHR 0x0A" for A x Z
  proof
    assume "int (length A + 1) \<in> set (fst (snd (scan (MboxParserStream options) chunks)))"
    from pushed_cases [OF this] have "occurs_at (concat chunks) (length A)" by auto
    from occurs_at_nth [OF this] S x show False by simp
  qed
  have esc: "int (length A + 2) \<notin> set (fst (snd (scan (MboxParserStream options) chunks)))"
    if S: "concat chunks = A @ [CHR 0x0A] @ ''>From someone'' @ [CHR 0x0A] @ B" for A B
  proof -
    from S have "concat chunks = (A @ [CHR 0x0A]) @ CHR ''>'' # (''From someone'' @ [CHR 0x0A] @ B)"
      by simp
    from gen [OF this] show ?thesis by simp
  qed
  from gen esc show ?thesis by blast
qed

text \<open>An instance of the statement above.\<close>

theorem C5_no_false_positive_witness:
  "concat [''From a'' @ [CHR 0x0A] @ ''>Fr'', ''om someone'' @ [CHR 0x0A] @ ''x From y'']
     = ''From a'' @ [CHR 0x0A] @ ''>From someone'' @ [CHR 0x0A] @ ''x From y''
   \<and> concat [''From a'' @ [CHR 0x0A] @ ''>Fr'', ''om someone'' @ [CHR 0x0A] @ ''x From y'']
     = (''From a'' @ [CHR 0x0A] @ ''>From someone'' @ [CHR 0x0A] @ ''x'') @ CHR '' '' # ''From '' @ ''y''
   \<and> CHR '' '' \<noteq> CHR 0x0A
   \<and> int (length ''From a'' + 2) \<notin> set (fst (snd (scan (MboxParserStream None)
        [''From a'' @ [CHR 0x0A] @ ''>Fr'', ''om someone'' @ [CHR 0x0A] @ ''x From y''])))
   \<and> int (length (''From a'' @ [CHR 0x0A] @ ''>From someone'' @ [CHR 0x0A] @ ''x'') + 1) \<notin>
       set (fst (snd (scan (MboxParserStream None)
        [''From a'' @ [CHR 0x0A] @ ''>Fr'', ''om someone'' @ [CHR 0x0A] @ ''x From y''])))"
proof -
  let ?cs = "[''From a'' @ [CHR 0x0A] @ ''>Fr'', ''om someone'' @ [CHR 0x0A] @ ''x From y'']"
  note inst = C5_no_false_positive [of ?cs None]
  have e1: "concat ?cs = ''From a'' @ [CHR 0x0A] @ ''>From someone'' @ [CHR 0x0A] @ ''x From y''"
    by simp
  have e2: "concat ?cs
     = (''From a'' @ [CHR 0x0A] @ ''>From someone'' @ [CHR 0x0A] @ ''x'') @ CHR '' '' # ''From '' @ ''y''"
    by simp
  have ne: "CHR '' '' \<noteq> CHR 0x0A" by simp
  from inst e1 have r1: "int (length ''From a'' + 2) \<notin> set (fst (snd (scan (MboxParserStream None) ?cs)))"
    by blast
  from inst e2 ne
  have r2: "int (length (''From a'' @ [CHR 0x0A] @ ''>From someone'' @ [CHR 0x0A] @ ''x'') + 1) \<notin>
       set (fst (snd (scan (MboxParserStream None) ?cs)))"
    by blast
  from e1 e2 ne r1 r2 show ?thesis by blast
qed

text \<open>
  C6 (concatenation). Let each of \<open>m1\<close>, \<open>m2\<close>, \<open>m3\<close> begin with \<open>From \<close>, end
  with a newline and contain no newline followed by \<open>From \<close>. Scanning their concatenation,
  under any chunking and either option, pushes exactly \<open>0\<close>, \<open>length m1\<close> and
  \<open>length m1 + length m2\<close>, in this order, and ends without error.
\<close>

theorem C6_concatenation_offsets:
  assumes "take 5 m1 = ''From ''" "last m1 = CHR 0x0A" "\<not> sublist DELIMITER m1"
    and "take 5 m2 = ''From ''" "last m2 = CHR 0x0A" "\<not> sublist DELIMITER m2"
    and "take 5 m3 = ''From ''" "last m3 = CHR 0x0A" "\<not> sublist DELIMITER m3"
    and "concat chunks = m1 @ m2 @ m3"
  shows "snd (scan (MboxParserStream options) chunks)
           = ([0, int (length m1), int (length m1) + int (length m2)], None)"
proof -
  have "take 5 (m1 @ m2 @ m3) = ''From ''" using assms(1) by (rule take5_append_From)
  moreover from arg_cong [OF this, of length] have "5 \<le> length (m1 @ m2 @ m3)" by simp
  ultimately have "\<not> evident_mismatch (m1 @ m2 @ m3)" by (simp add: evident_mismatch_long)
  with three_messages_positions [OF assms(1-9)] assms(10) show ?thesis
    by (simp add: scan_fresh)
qed

text \<open>An instance of the statement above.\<close>

theorem C6_concatenation_offsets_witness:
  "take 5 (''From a'' @ [CHR 0x0A]) = ''From '' \<and> last (''From a'' @ [CHR 0x0A]) = CHR 0x0A
   \<and> \<not> sublist DELIMITER (''From a'' @ [CHR 0x0A])
   \<and> take 5 (''From bc'' @ [CHR 0x0A]) = ''From '' \<and> last (''From bc'' @ [CHR 0x0A]) = CHR 0x0A
   \<and> \<not> sublist DELIMITER (''From bc'' @ [CHR 0x0A])
   \<and> take 5 (''From d'' @ [CHR 0x0A]) = ''From '' \<and> last (''From d'' @ [CHR 0x0A]) = CHR 0x0A
   \<and> \<not> sublist DELIMITER (''From d'' @ [CHR 0x0A])
   \<and> snd (scan (MboxParserStream (Some True))
        [''From a'' @ [CHR 0x0A] @ ''Fr'', ''om bc'', [CHR 0x0A], ''From d'' @ [CHR 0x0A]])
       = ([0, 7, 15], None)"
proof -
  have a: "take 5 (''From a'' @ [CHR 0x0A]) = ''From ''" "last (''From a'' @ [CHR 0x0A]) = CHR 0x0A"
    and b: "take 5 (''From bc'' @ [CHR 0x0A]) = ''From ''" "last (''From bc'' @ [CHR 0x0A]) = CHR 0x0A"
    and c: "take 5 (''From d'' @ [CHR 0x0A]) = ''From ''" "last (''From d'' @ [CHR 0x0A]) = CHR 0x0A"
    by simp_all
  have na: "\<not> sublist DELIMITER (''From a'' @ [CHR 0x0A])" by code_simp
  have nb: "\<not> sublist DELIMITER (''From bc'' @ [CHR 0x0A])" by code_simp
  have nc: "\<not> sublist DELIMITER (''From d'' @ [CHR 0x0A])" by code_simp
  have cc: "concat [''From a'' @ [CHR 0x0A] @ ''Fr'', ''om bc'', [CHR 0x0A], ''From d'' @ [CHR 0x0A]]
              = (''From a'' @ [CHR 0x0A]) @ (''From bc'' @ [CHR 0x0A]) @ (''From d'' @ [CHR 0x0A])"
    by simp
  from C6_concatenation_offsets [OF a na b nb c nc cc, of "Some True"]
  have "snd (scan (MboxParserStream (Some True))
        [''From a'' @ [CHR 0x0A] @ ''Fr'', ''om bc'', [CHR 0x0A], ''From d'' @ [CHR 0x0A]])
       = ([0, 7, 15], None)"
    by simp
  with a b c na nb nc show ?thesis by blast
qed

text \<open>
  C7 (strictly increasing output). The offsets pushed over all the calls of a scan are
  strictly increasing, hence free of duplicates, and none is negative; when the scan ends
  without error, the boundary of every occurrence of the delimiter is pushed exactly once,
  wherever the chunk borders fall.
\<close>

theorem C7_strictly_increasing:
  "sorted_wrt (<) (fst (snd (scan (MboxParserStream options) chunks)))
   \<and> distinct (fst (snd (scan (MboxParserStream options) chunks)))
   \<and> (\<forall>x \<in> set (fst (snd (scan (MboxParserStream options) chunks))). 0 \<le> x)
   \<and> (snd (snd (scan (MboxParserStream options) chunks)) = None \<and> occurs_at (concat chunks) p
        \<longrightarrow> count_list (fst (snd (scan (MboxParserStream options) chunks))) (int p + 1) = 1)"
proof -
  let ?out = "fst (snd (scan (MboxParserStream options) chunks))"
  have srt: "sorted_wrt (<) ?out" by (simp add: scan_fresh sorted_boundaries)
  then have dst: "distinct ?out" by (simp add: strict_sorted_iff)
  have pos: "\<forall>x \<in> set ?out. 0 \<le> x"
    using pushed_cases [of _ options chunks] by fastforce
  have once: "count_list ?out (int p + 1) = 1"
    if "snd (snd (scan (MboxParserStream options) chunks)) = None" "occurs_at (concat chunks) p"
  proof -
    from that have "int p + 1 \<in> set ?out"
      by (auto simp: scan_fresh boundaries_member split: if_splits)
    with dst show ?thesis by (rule count_list_distinct)
  qed
  from srt dst pos once show ?thesis by blast
qed

text \<open>An instance of the statement above.\<close>

theorem C7_strictly_increasing_witness:
  "snd (snd (scan (MboxParserStream None) [''From a'' @ [CHR 0x0A] @ ''Fr'', ''om b''])) = None
   \<and> occurs_at (concat [''From a'' @ [CHR 0x0A] @ ''Fr'', ''om b'']) 6
   \<and> sorted_wrt (<) (fst (snd (scan (MboxParserStream None) [''From a'' @ [CHR 0x0A] @ ''Fr'', ''om b''])))
   \<and> distinct (fst (snd (scan (MboxParserStream None) [''From a'' @ [CHR 0x0A] @ ''Fr'', ''om b''])))
   \<and> count_list (fst (snd (scan (MboxParserStream None) [''From a'' @ [CHR 0x0A] @ ''Fr'', ''om b''])))
        (int 6 + 1) = 1"
proof -
  let ?cs = "[''From a'' @ [CHR 0x0A] @ ''Fr'', ''om b'']"
  have ok: "snd (snd (scan (MboxParserStream None) ?cs)) = None" by code_simp
  have occ: "occurs_at (concat ?cs) 6" by (simp add: occurs_at_def DELIMITER_def)
  from C7_strictly_increasing [of None ?cs 6] ok occ show ?thesis by blast
qed




text \<open>
  C9 (bound of the carry buffer). After any sequence of calls on a fresh scanner,
  the failing call of a strict scan included, \<open>tail\<close> is no longer than the delimiter; once
  \<open>isFirstChunk\<close> is false it is no longer than the delimiter less one byte; while
  \<open>isFirstChunk\<close> is true it is the first five bytes of what has been received.
\<close>

theorem C9_carry_bound:
  "feed (MboxParserStream options) chunks = (s', out, r) \<Longrightarrow>
     length (tail s') \<le> length DELIMITER
     \<and> (\<not> isFirstChunk s' \<longrightarrow> length (tail s') \<le> length DELIMITER - 1)
     \<and> (isFirstChunk s' \<longrightarrow> tail s' = take 5 (concat chunks))"
proof -
  assume f: "feed (MboxParserStream options) chunks = (s', out, r)"
  let ?b = "strict (MboxParserStream options)"
  show ?thesis
  proof (cases r)
    case None
    with feed_fresh(2) [OF f] have "s' = state_after ?b (concat chunks)" by simp
    then show ?thesis by (auto simp: state_after_def pending_def length_DELIMITER)
  next
    case (Some e)
    with feed_fresh(5) [OF f] obtain S'
      where "s' = (state_after ?b S')\<lparr> isFirstChunk := False, destroyed := True \<rparr>"
      by auto
    then show ?thesis by (auto simp: state_after_def length_DELIMITER)
  qed
qed

text \<open>An instance of the statement above.\<close>

theorem C9_carry_bound_witness:
  "feed (MboxParserStream None) [''Fr'', ''o'']
      = (\<lparr> absoluteOffset = 3, tail = ''Fro'', isFirstChunk = True, strict = False,
          writableEnded = False, destroyed = False \<rparr>, [], None)
   \<and> length (tail \<lparr> absoluteOffset = 3, tail = ''Fro'', isFirstChunk = True, strict = False,
          writableEnded = False, destroyed = False \<rparr>)
        \<le> length DELIMITER
   \<and> tail \<lparr> absoluteOffset = 3, tail = ''Fro'', isFirstChunk = True, strict = False,
          writableEnded = False, destroyed = False \<rparr>
        = take 5 (concat [''Fr'', ''o''])
   \<and> feed (MboxParserStream None) [''From someone'', ''abc'']
      = (\<lparr> absoluteOffset = 15, tail = ''neabc'', isFirstChunk = False, strict = False,
          writableEnded = False, destroyed = False \<rparr>, [0], None)
   \<and> length (tail \<lparr> absoluteOffset = 15, tail = ''neabc'', isFirstChunk = False, strict = False,
          writableEnded = False, destroyed = False \<rparr>)
        \<le> length DELIMITER - 1"
proof -
  have f1: "feed (MboxParserStream None) [''Fr'', ''o'']
      = (\<lparr> absoluteOffset = 3, tail = ''Fro'', isFirstChunk = True, strict = False,
          writableEnded = False, destroyed = False \<rparr>, [], None)"
    by code_simp
  have f2: "feed (MboxParserStream None) [''From someone'', ''abc'']
      = (\<lparr> absoluteOffset = 15, tail = ''neabc'', isFirstChunk = False, strict = False,
          writableEnded = False, destroyed = False \<rparr>, [0], None)"
    by code_simp
  from C9_carry_bound [OF f1] C9_carry_bound [OF f2] f1 f2 show ?thesis by simp
qed

text \<open>
  C10 (short streams are never validated). When the whole stream is shorter than five
  bytes and a prefix of \<open>From \<close>, the empty stream included, then for either option every
  call leaves \<open>isFirstChunk\<close> true, pushes nothing and raises nothing, \<open>_flush\<close> changes
  nothing, and the scan ends without error and without offsets.
\<close>

theorem C10_short_stream_never_checked:
  assumes "length (concat chunks) < 5" and "prefix (concat chunks) ''From ''"
  shows "(\<forall>n. snd (feed (MboxParserStream options) (take n chunks)) = ([], None)
             \<and> isFirstChunk (fst (feed (MboxParserStream options) (take n chunks))))
         \<and> flush (fst (feed (MboxParserStream options) chunks))
             = (fst (feed (MboxParserStream options) chunks), [], None)
         \<and> snd (scan (MboxParserStream options) chunks) = ([], None)"
proof -
  let ?b = "strict (MboxParserStream options)"
  from assms have p: "pending (concat chunks)" by (simp add: pending_def DELIMITER_START_def)
  have each: "snd (feed (MboxParserStream options) (take n chunks)) = ([], None)
             \<and> isFirstChunk (fst (feed (MboxParserStream options) (take n chunks)))" for n
  proof -
    have pn: "pending (concat (take n chunks))"
      using concat_take_prefix p by (rule pending_prefix)
    obtain s' out r where f: "feed (MboxParserStream options) (take n chunks) = (s', out, r)"
      by (cases "feed (MboxParserStream options) (take n chunks)") auto
    from feed_fresh(1) [OF f] pending_not_mismatch [OF pn] have r: "r = None" by simp
    from feed_fresh(2,3) [OF f r] have "s' = state_after ?b (concat (take n chunks))"
      and "out = boundaries (concat (take n chunks))" by simp_all
    moreover from pn have "length (concat (take n chunks)) < 5" by (simp add: pending_def)
    ultimately show ?thesis using f r pn by (simp add: boundaries_short state_after_def)
  qed
  from each [of "length chunks"]
  have "snd (scan (MboxParserStream options) chunks) = ([], None)" by (simp add: scan_feed)
  with each show ?thesis by (simp add: flush_def)
qed

text \<open>An instance of the statement above.\<close>

theorem C10_short_stream_never_checked_witness:
  "length (concat [''F'', [], ''ro'']) < 5 \<and> prefix (concat [''F'', [], ''ro'']) ''From ''
   \<and> snd (feed (MboxParserStream (Some True)) (take 2 [''F'', [], ''ro''])) = ([], None)
   \<and> isFirstChunk (fst (feed (MboxParserStream (Some True)) (take 2 [''F'', [], ''ro''])))
   \<and> snd (scan (MboxParserStream (Some True)) [''F'', [], ''ro'']) = ([], None)"
proof -
  have l: "length (concat [''F'', [], ''ro'']) < 5" by simp
  have p: "prefix (concat [''F'', [], ''ro'']) ''From ''" by simp
  from C10_short_stream_never_checked [OF l p, of "Some True"] l p show ?thesis by blast
qed

end
